theory Spec2Isabelle
  imports Main "HOL-Library.AList"
begin

section \<open>Strings and character classes\<close>

text \<open>
  The program is \<^verbatim>\<open>src/tools/dr_protocol.js\<close>. A JavaScript string is a sequence of
  code units; the model takes the code units 0..255 (the type \<^typ>\<open>char\<close>), so
  \<^verbatim>\<open>s.length\<close> is \<^const>\<open>length\<close>. On these code units \<^verbatim>\<open>toLowerCase\<close>,
  \<^verbatim>\<open>trim\<close> and the regular-expression classes act one code unit at a time, as below.
\<close>

definition is_digit :: "char \<Rightarrow> bool" where
  \<comment> \<open>the class \<^verbatim>\<open>[0-9]\<close>\<close>
  "is_digit c = (let n = (of_char c :: int) in 48 \<le> n \<and> n \<le> 57)"

definition is_lower_az :: "char \<Rightarrow> bool" where
  \<comment> \<open>the class \<^verbatim>\<open>[a-z]\<close>\<close>
  "is_lower_az c = (let n = (of_char c :: int) in 97 \<le> n \<and> n \<le> 122)"

definition is_space :: "char \<Rightarrow> bool" where
  \<comment> \<open>\<^verbatim>\<open>\s\<close>, and what \<^verbatim>\<open>trim\<close> strips: TAB, LF, VT, FF, CR, space, NBSP\<close>
  "is_space c = (let n = (of_char c :: int) in (9 \<le> n \<and> n \<le> 13) \<or> n = 32 \<or> n = 160)"

definition is_word_char :: "char \<Rightarrow> bool" where
  \<comment> \<open>\<^verbatim>\<open>\w\<close>, that is \<^verbatim>\<open>[A-Za-z0-9_]\<close>\<close>
  "is_word_char c = (let n = (of_char c :: int) in
     (48 \<le> n \<and> n \<le> 57) \<or> (65 \<le> n \<and> n \<le> 90) \<or> n = 95 \<or> (97 \<le> n \<and> n \<le> 122))"

definition lower_char :: "char \<Rightarrow> char" where
  \<comment> \<open>A-Z and the Latin-1 capitals (all of 192..222 but the multiplication sign)\<close>
  "lower_char c = (let n = (of_char c :: int) in
     if (65 \<le> n \<and> n \<le> 90) \<or> (192 \<le> n \<and> n \<le> 222 \<and> n \<noteq> 215) then char_of (n + 32) else c)"

definition toLowerCase :: "string \<Rightarrow> string" where
  "toLowerCase s = map lower_char s"

definition canonicalize :: "char \<Rightarrow> char" where
  \<comment> \<open>how a regular expression with the flag \<^verbatim>\<open>i\<close> compares code units: by their upper case.
     The two code units whose upper case lies beyond 255 (0xB5, 0xFF) stay as they are, which
     keeps them different from every other code unit, as their upper cases are.\<close>
  "canonicalize c = (let n = (of_char c :: int) in
     if (97 \<le> n \<and> n \<le> 122) \<or> (224 \<le> n \<and> n \<le> 254 \<and> n \<noteq> 247) then char_of (n - 32) else c)"

definition trim :: "string \<Rightarrow> string" where
  "trim s = rev (dropWhile is_space (rev (dropWhile is_space s)))"

fun starts_with :: "string \<Rightarrow> string \<Rightarrow> bool" where
  "starts_with [] s = True"
| "starts_with (p # ps) [] = False"
| "starts_with (p # ps) (c # cs) = (p = c \<and> starts_with ps cs)"

fun str_includes :: "string \<Rightarrow> string \<Rightarrow> bool" where
  \<comment> \<open>\<^verbatim>\<open>s.includes(k)\<close>: \<open>k\<close> occurs in \<open>s\<close> at some position\<close>
  "str_includes [] k = (k = [])"
| "str_includes (c # cs) k = (starts_with k (c # cs) \<or> str_includes cs k)"

section \<open>Regular expressions\<close>

text \<open>
  A pattern is a predicate on a position of the subject: the code unit before the position
  (\<open>None\<close> at the start of the subject) and the rest of the subject from the position on.
  \<^verbatim>\<open>re.test(s)\<close> tries every position from the first to the one after the last
  code unit. None of the patterns of the program has the flags \<^verbatim>\<open>m\<close>, \<^verbatim>\<open>g\<close> or \<^verbatim>\<open>y\<close>.
\<close>

type_synonym pattern = "char option \<Rightarrow> string \<Rightarrow> bool"

fun regex_search :: "pattern \<Rightarrow> char option \<Rightarrow> string \<Rightarrow> bool" where
  "regex_search m prev [] = m prev []"
| "regex_search m prev (c # cs) = (m prev (c # cs) \<or> regex_search m (Some c) cs)"

definition regex_test :: "pattern \<Rightarrow> string \<Rightarrow> bool" where
  "regex_test m s = regex_search m None s"

definition word_boundary :: "char option \<Rightarrow> string \<Rightarrow> bool" where
  \<comment> \<open>\<^verbatim>\<open>\b\<close>: exactly one of the code units around the position is a word character\<close>
  "word_boundary prev rest =
     ((case prev of None \<Rightarrow> False | Some a \<Rightarrow> is_word_char a)
      \<noteq> (case rest of [] \<Rightarrow> False | b # _ \<Rightarrow> is_word_char b))"

fun literal_ci :: "string \<Rightarrow> char option \<Rightarrow> string \<Rightarrow> (char option \<times> string) option" where
  \<comment> \<open>a literal under the flag \<^verbatim>\<open>i\<close>; gives the position after the match\<close>
  "literal_ci [] prev s = Some (prev, s)"
| "literal_ci (p # ps) prev [] = None"
| "literal_ci (p # ps) prev (c # cs) =
     (if canonicalize p = canonicalize c then literal_ci ps (Some c) cs else None)"

definition bounded_words :: "string list \<Rightarrow> pattern" where
  \<comment> \<open>\<^verbatim>\<open>\b(w1|w2|...)\b\<close> with the flag \<^verbatim>\<open>i\<close>\<close>
  "bounded_words alts prev s =
     (word_boundary prev s \<and>
      list_ex (\<lambda>a. case literal_ci a prev s of
                      None \<Rightarrow> False
                    | Some (p, rest) \<Rightarrow> word_boundary p rest) alts)"

fun digits_percent :: "string \<Rightarrow> bool" where
  \<comment> \<open>\<^verbatim>\<open>[0-9]+%\<close> at the head of the string\<close>
  "digits_percent [] = False"
| "digits_percent (c # cs) =
     (is_digit c \<and> (case cs of [] \<Rightarrow> False | d # _ \<Rightarrow> d = CHR ''%'' \<or> digits_percent cs))"

definition re_numeric :: pattern where
  \<comment> \<open>\<^verbatim>\<open>/[0-9]{2,}|202[0-9]|[0-9]+%/\<close>\<close>
  "re_numeric prev s =
     ((case s of a # b # _ \<Rightarrow> is_digit a \<and> is_digit b | _ \<Rightarrow> False)
      \<or> (case s of a # b # c # d # _ \<Rightarrow>
            a = CHR ''2'' \<and> b = CHR ''0'' \<and> c = CHR ''2'' \<and> is_digit d | _ \<Rightarrow> False)
      \<or> digits_percent s)"

definition FACT_WORDS :: "string list" where
  "FACT_WORDS = [''version'', ''error'', ''commit'', ''bug'', ''issue'', ''cron'', ''workflow'']"

definition CLAIM_WORDS :: "string list" where
  "CLAIM_WORDS =
     [''should'', ''must'', ''need to'', ''we should'', ''recommend'', ''suggest'', ''propose'']"

definition re_question_mark_end :: pattern where
  \<comment> \<open>\<^verbatim>\<open>/\?$/\<close>: a question mark and then the end of the subject\<close>
  "re_question_mark_end prev s = (s = ''?'')"

definition literal_space :: "string \<Rightarrow> string \<Rightarrow> bool" where
  \<comment> \<open>a literal under the flag \<^verbatim>\<open>i\<close> and then \<^verbatim>\<open>\s\<close>\<close>
  "literal_space w s =
     (case literal_ci w None s of
        Some (_, c # _) \<Rightarrow> is_space c
      | _ \<Rightarrow> False)"

definition re_interrogative :: pattern where
  \<comment> \<open>\<^verbatim>\<open>/^\s*who\s|what\s|why\s|how\s/i\<close>: four alternatives, and \<^verbatim>\<open>^\s*\<close> belongs to
     the first one only. \<^verbatim>\<open>^\<close> holds at the start of the subject; \<^verbatim>\<open>\s*\<close> takes the whole
     run of white space, since the next code unit of the pattern is not white space.\<close>
  "re_interrogative prev s =
     ((prev = None \<and> literal_space ''who'' (dropWhile is_space s))
      \<or> literal_space ''what'' s
      \<or> literal_space ''why'' s
      \<or> literal_space ''how'' s)"

section \<open>The classifier\<close>

record decon =
  facts :: "string list"
  claims :: "string list"
  questions :: "string list"

definition is_fact_signal :: "string \<Rightarrow> bool" where
  \<comment> \<open>the condition of the first branch\<close>
  "is_fact_signal s = (regex_test re_numeric s \<or> regex_test (bounded_words FACT_WORDS) s)"

definition is_claim_signal :: "string \<Rightarrow> bool" where
  \<comment> \<open>the condition of the second branch, on \<^verbatim>\<open>low = s.toLowerCase()\<close>\<close>
  "is_claim_signal s = regex_test (bounded_words CLAIM_WORDS) (toLowerCase s)"

definition is_question_signal :: "string \<Rightarrow> bool" where
  \<comment> \<open>the condition of the third branch\<close>
  "is_question_signal s =
     (regex_test re_question_mark_end (trim s) \<or> regex_test re_interrogative s)"

definition classify_push :: "decon \<Rightarrow> string \<Rightarrow> decon" where
  \<comment> \<open>the body of the loop of \<^verbatim>\<open>extractFactsAndClaims\<close>\<close>
  "classify_push d s =
     (if is_fact_signal s then d\<lparr>facts := facts d @ [trim s]\<rparr>
      else if is_claim_signal s then d\<lparr>claims := claims d @ [trim s]\<rparr>
      else if is_question_signal s then d\<lparr>questions := questions d @ [trim s]\<rparr>
      else d\<lparr>facts := facts d @ [trim s]\<rparr>)"

definition extractFactsAndClaims :: "string list \<Rightarrow> decon" where
  "extractFactsAndClaims sentences =
     foldl classify_push \<lparr>facts = [], claims = [], questions = []\<rparr> sentences"

section \<open>Tokens and keyword scores\<close>

definition is_curly_quote :: "char \<Rightarrow> bool" where
  \<comment> \<open>the class of the four curly quotes, the code units 0x2018, 0x2019, 0x201C, 0x201D;
     no code unit up to 255 is in it, so the first replacement leaves these texts as they are\<close>
  "is_curly_quote c = (let n = (of_char c :: int) in n = 8216 \<or> n = 8217 \<or> n = 8220 \<or> n = 8221)"

definition is_token_char :: "char \<Rightarrow> bool" where
  \<comment> \<open>the class \<^verbatim>\<open>[a-z0-9'\s\-]\<close>, which the second replacement negates\<close>
  "is_token_char c =
     (is_lower_az c \<or> is_digit c \<or> c = CHR 0x27 \<or> is_space c \<or> c = CHR ''-'')"

function split_ws :: "string \<Rightarrow> string \<Rightarrow> string list" where
  \<comment> \<open>\<^verbatim>\<open>split(/\s+/)\<close>: the first argument is the piece read so far, reversed. A match
     takes the whole run of white space and closes the piece, also an empty one.\<close>
  "split_ws cur [] = [rev cur]"
| "split_ws cur (c # cs) =
     (if is_space c then rev cur # split_ws [] (dropWhile is_space cs)
      else split_ws (c # cur) cs)"
  by pat_completeness auto
termination
  by (relation "measure (\<lambda>(cur, s). length s)")
     (auto simp: le_imp_less_Suc length_dropWhile_le)

definition tokenizeWords :: "string \<Rightarrow> string list" where
  "tokenizeWords text =
     filter (\<lambda>w. w \<noteq> [])
       (split_ws []
         (map (\<lambda>c. if is_token_char c then c else CHR '' '')
           (map (\<lambda>c. if is_curly_quote c then CHR 0x27 else c)
             (toLowerCase text))))"

definition STOPWORDS :: "string list" where
  "STOPWORDS =
     [''the'', ''a'', ''an'', ''and'', ''or'', ''but'', ''if'', ''then'', ''else'', ''for'',
      ''to'', ''of'', ''in'', ''on'', ''with'', ''by'', ''is'', ''are'', ''was'', ''were'',
      ''be'', ''been'', ''it'', ''that'', ''this'', ''these'', ''those'', ''as'', ''at'',
      ''from'', ''we'', ''you'', ''they'', ''he'', ''she'', ''i'', ''my'', ''our'', ''your'']"

text \<open>
  The object \<open>freq\<close> is an association list in the order in which its properties were
  created: assigning to an existing property keeps its place, a new property goes last
  (\<^const>\<open>AList.update\<close>). A property that was never assigned reads as \<^verbatim>\<open>undefined\<close>,
  which \<^verbatim>\<open>|| 0\<close> turns into 0.
\<close>

type_synonym freq_object = "(string \<times> nat) list"

definition count_word :: "freq_object \<Rightarrow> string \<Rightarrow> freq_object" where
  \<comment> \<open>the callback of \<^verbatim>\<open>words.forEach\<close>\<close>
  "count_word freq w =
     (if w \<in> set STOPWORDS \<or> length w \<le> 2 then freq
      else AList.update w ((case map_of freq w of None \<Rightarrow> 0 | Some v \<Rightarrow> v) + 1) freq)"

definition decimal_value :: "string \<Rightarrow> int" where
  "decimal_value k = foldl (\<lambda>n c. 10 * n + (of_char c - 48)) 0 k"

definition is_array_index :: "string \<Rightarrow> bool" where
  \<comment> \<open>a property key that is the canonical decimal form of an integer below \<open>2^32 - 1\<close>\<close>
  "is_array_index k =
     (k \<noteq> [] \<and> list_all is_digit k \<and> (k = ''0'' \<or> hd k \<noteq> CHR ''0'')
      \<and> decimal_value k \<le> 4294967294)"

definition Object_entries :: "freq_object \<Rightarrow> (string \<times> nat) list" where
  \<comment> \<open>\<^verbatim>\<open>Object.entries\<close> lists the properties whose keys are array indices first, in
     ascending numeric order, and then the other properties in the order of their creation\<close>
  "Object_entries obj =
     sort_key (\<lambda>e. decimal_value (fst e)) (filter (\<lambda>e. is_array_index (fst e)) obj)
     @ filter (\<lambda>e. \<not> is_array_index (fst e)) obj"

text \<open>
  \<^verbatim>\<open>Array.prototype.sort\<close> with a comparison function is stable: elements that compare
  equal keep their order. For a consistent comparison function this fixes the result, which
  insertion from the right computes.
\<close>

fun insort_cmp :: "('a \<Rightarrow> 'a \<Rightarrow> int) \<Rightarrow> 'a \<Rightarrow> 'a list \<Rightarrow> 'a list" where
  "insort_cmp cmp x [] = [x]"
| "insort_cmp cmp x (y # ys) =
     (if cmp x y \<le> 0 then x # y # ys else y # insort_cmp cmp x ys)"

definition js_sort :: "('a \<Rightarrow> 'a \<Rightarrow> int) \<Rightarrow> 'a list \<Rightarrow> 'a list" where
  "js_sort cmp xs = foldr (insort_cmp cmp) xs []"

record keyword_count =
  keyword :: string
  count :: nat

definition by_count_desc :: "string \<times> nat \<Rightarrow> string \<times> nat \<Rightarrow> int" where
  \<comment> \<open>\<^verbatim>\<open>(a,b) => b[1]-a[1]\<close>\<close>
  "by_count_desc a b = int (snd b) - int (snd a)"

definition scoreKeywords :: "string list \<Rightarrow> keyword_count list" where
  "scoreKeywords words =
     (let freq = foldl count_word [] words;
          arr = js_sort by_count_desc (Object_entries freq)
      in map (\<lambda>(k, v). \<lparr>keyword = k, count = v\<rparr>) (take 12 arr))"

section \<open>Focal points\<close>

record matched =
  sentence :: string
  matches :: "string list"
  length_m :: nat  \<comment> \<open>the property \<^verbatim>\<open>length\<close>\<close>

record focal_point =
  f_id :: string  \<comment> \<open>the property \<^verbatim>\<open>id\<close>\<close>
  summary :: string
  triggers :: "string list"

record micro_point =
  k_id :: string  \<comment> \<open>the property \<^verbatim>\<open>id\<close>\<close>
  k_keyword :: string  \<comment> \<open>the property \<^verbatim>\<open>keyword\<close>\<close>

record focal_points =
  focal :: "focal_point list"
  micro :: "micro_point list"

fun decimal :: "nat \<Rightarrow> string" where
  \<comment> \<open>a number inside a template literal\<close>
  "decimal n =
     (if n < 10 then [char_of (48 + n)] else decimal (n div 10) @ [char_of (48 + n mod 10)])"

declare decimal.simps [simp del]

definition topK :: "keyword_count list \<Rightarrow> string list" where
  "topK kws = map keyword (take (min 6 (length kws)) kws)"

definition match_push :: "string list \<Rightarrow> matched list \<Rightarrow> string \<Rightarrow> matched list" where
  \<comment> \<open>the body of the loop of \<^verbatim>\<open>identifyFocalPoints\<close>\<close>
  "match_push ks acc s =
     (let lw = toLowerCase s;
          ms = filter (\<lambda>k. str_includes lw k) ks
      in if length ms \<noteq> 0
         then acc @ [\<lparr>sentence = trim s, matches = ms, length_m = length s\<rparr>]
         else acc)"

definition by_matches_then_length :: "matched \<Rightarrow> matched \<Rightarrow> int" where
  \<comment> \<open>\<^verbatim>\<open>(a,b) => (b.matches.length - a.matches.length) || (b.length - a.length)\<close>\<close>
  "by_matches_then_length a b =
     (let d = int (length (matches b)) - int (length (matches a))
      in if d \<noteq> 0 then d else int (length_m b) - int (length_m a))"

definition identifyFocalPoints :: "string list \<Rightarrow> keyword_count list \<Rightarrow> focal_points" where
  "identifyFocalPoints sentences kws =
     (let ks = topK kws;
          found = js_sort by_matches_then_length (foldl (match_push ks) [] sentences)
      in \<lparr>focal = map (\<lambda>(i, m). \<lparr>f_id = ''F'' @ decimal (i + 1), summary = sentence m,
                                  triggers = matches m\<rparr>)
                      (enumerate 0 (take 5 found)),
          micro = map (\<lambda>(i, k). \<lparr>k_id = ''K'' @ decimal (i + 1), k_keyword = k\<rparr>)
                      (enumerate 0 ks)\<rparr>)"

section \<open>Proposals\<close>

definition TRIAGE :: string where
  "TRIAGE = ''Triage: reproduce, add labels, assign owner, prioritize.''"

definition AUTOMATE :: string where
  "AUTOMATE =
     ''Automate: create a minimal workflow to notify assignees only when label + unassigned.''"

definition SECURITY_AUDIT :: string where
  "SECURITY_AUDIT =
     ''Security audit: list workflows that use tokens; restrict job permissions; rotate tokens.''"

definition INSTRUMENT :: string where
  "INSTRUMENT =
     ''Instrument: add verbose logging and dry-run option before any push actions.''"

definition VALIDATE :: string where
  "VALIDATE = ''Validate: ensure email sending does not perform git operations; ''
     @ ''use read-only tokens for notifications.''"

definition FALLBACK :: string where
  "FALLBACK = ''Fallback: add a non-invasive channel (issue comment) as backup notification.''"

definition ASK :: string where
  "ASK = ''Ask clarifying question about intent and constraints; ''
     @ ''propose a minimal PoC (one-file) to test.''"

record proposal =
  p_id :: string  \<comment> \<open>the property \<^verbatim>\<open>id\<close>\<close>
  problem :: string
  proposals :: "string list"
  principles :: "string list"

definition issue_group :: "string \<Rightarrow> bool" where
  "issue_group s =
     (str_includes s ''issue'' \<or> str_includes s ''bug'' \<or> str_includes s ''label'')"

definition workflow_group :: "string \<Rightarrow> bool" where
  "workflow_group s =
     (str_includes s ''workflow'' \<or> str_includes s ''cron'' \<or> str_includes s ''gh token''
      \<or> str_includes s ''secret'')"

definition email_group :: "string \<Rightarrow> bool" where
  "email_group s = (str_includes s ''email'' \<or> str_includes s ''notify'')"

definition propose :: "focal_point \<Rightarrow> proposal" where
  \<comment> \<open>the function mapped over \<^verbatim>\<open>focalPoints.focal\<close>; \<open>a1\<close>, \<open>a2\<close>, \<open>a3\<close>, \<open>a4\<close> are
     the array \<^verbatim>\<open>actions\<close> after each of the four conditionals\<close>
  "propose fp =
     (let s = toLowerCase (summary fp);
          a1 = (if issue_group s then [] @ [TRIAGE, AUTOMATE] else []);
          a2 = (if workflow_group s then a1 @ [SECURITY_AUDIT, INSTRUMENT] else a1);
          a3 = (if email_group s then a2 @ [VALIDATE, FALLBACK] else a2);
          a4 = (if length a3 = 0 then a3 @ [ASK] else a3)
      in \<lparr>p_id = f_id fp, problem = summary fp, proposals = take 3 a4,
          principles = [''Simple'', ''Efficient'', ''Pragmatic'', ''Safe'']\<rparr>)"

definition reArchitect :: "focal_points \<Rightarrow> proposal list" where
  "reArchitect focalPoints = map propose (focal focalPoints)"

section \<open>The report and the run\<close>

record meta_info =
  timestamp :: string
  sourceSize :: nat

record report =
  meta :: meta_info
  deconstruction :: decon
  keywords_r :: "keyword_count list"  \<comment> \<open>the property \<^verbatim>\<open>keywords\<close>\<close>
  focalPoints :: focal_points
  rearchitecture :: "proposal list"

definition summarizeJSON ::
  "string \<Rightarrow> string \<Rightarrow> decon \<Rightarrow> keyword_count list \<Rightarrow> focal_points \<Rightarrow> proposal list \<Rightarrow> report"
where
  \<comment> \<open>the first argument is what \<^verbatim>\<open>new Date().toISOString()\<close> returns\<close>
  "summarizeJSON now origText dec kws foc props =
     \<lparr>meta = \<lparr>timestamp = now, sourceSize = length origText\<rparr>,
      deconstruction = dec, keywords_r = kws, focalPoints = foc, rearchitecture = props\<rparr>"

fun replace_crlf :: "string \<Rightarrow> string" where
  \<comment> \<open>\<^verbatim>\<open>replace(/\r\n/g,'\n')\<close>\<close>
  "replace_crlf (a # b # cs) =
     (if a = CHR 0x0D \<and> b = CHR 0x0A then CHR 0x0A # replace_crlf cs
      else a # replace_crlf (b # cs))"
| "replace_crlf cs = cs"

fun behind_terminal :: "string \<Rightarrow> bool" where
  \<comment> \<open>\<^verbatim>\<open>[.?!]\s+\<close> read backwards from a position; the argument is the text before the
     position, reversed\<close>
  "behind_terminal [] = False"
| "behind_terminal (c # cs) =
     (is_space c \<and>
      (case cs of [] \<Rightarrow> False
       | d # _ \<Rightarrow> d = CHR ''.'' \<or> d = CHR ''?'' \<or> d = CHR ''!'' \<or> behind_terminal cs))"

definition lookbehind :: "string \<Rightarrow> bool" where
  \<comment> \<open>\<^verbatim>\<open>(?<=[.?!]\s+|\n{2,})\<close>, on the text before the position, reversed\<close>
  "lookbehind pre =
     (behind_terminal pre
      \<or> (case pre of a # b # _ \<Rightarrow> a = CHR 0x0A \<and> b = CHR 0x0A | _ \<Rightarrow> False))"

fun split_behind :: "string \<Rightarrow> string \<Rightarrow> string \<Rightarrow> string list" where
  \<comment> \<open>\<^verbatim>\<open>split\<close> on a pattern that matches the empty string: the text is cut at every
     position, after the first code unit of a piece and before the end of the text, where the
     pattern holds. The arguments are the text before the position and the piece read so far,
     both reversed, and the text from the position on.\<close>
  "split_behind pre cur [] = [rev cur]"
| "split_behind pre cur (c # cs) =
     (if cur \<noteq> [] \<and> lookbehind pre then rev cur # split_behind (c # pre) [c] cs
      else split_behind (c # pre) (c # cur) cs)"

definition splitSentences :: "string \<Rightarrow> string list" where
  \<comment> \<open>the constant \<^verbatim>\<open>sentences\<close> of \<^verbatim>\<open>main\<close>\<close>
  "splitSentences input =
     filter (\<lambda>s. s \<noteq> []) (map trim (split_behind [] [] (replace_crlf input)))"

datatype file_arg = NoFile | Unreadable | Contents string

record world =
  argv_file :: file_arg  \<comment> \<open>\<^verbatim>\<open>argv.file\<close>: absent, a path that cannot be read, or the text read\<close>
  positional :: "string list"  \<comment> \<open>\<^verbatim>\<open>argv._\<close>\<close>
  stdin :: "string option"  \<comment> \<open>what \<^verbatim>\<open>readStdin\<close> resolves to: \<open>None\<close> on a terminal\<close>
  clock :: string  \<comment> \<open>what \<^verbatim>\<open>new Date().toISOString()\<close> returns\<close>
  disk_ok :: bool  \<comment> \<open>whether the directory and the file can be written\<close>

record outcome =
  exit_code :: nat
  stderr :: "string list"  \<comment> \<open>the messages, without the error detail and the path\<close>
  stdout :: "report option"
  written :: "report option"  \<comment> \<open>the content of the file under \<^verbatim>\<open>./dr_results\<close>\<close>

fun join_space :: "string list \<Rightarrow> string" where
  \<comment> \<open>\<^verbatim>\<open>join(' ')\<close>\<close>
  "join_space [] = []"
| "join_space [x] = x"
| "join_space (x # y # ys) = x @ '' '' @ join_space (y # ys)"

definition obtain_input :: "world \<Rightarrow> unit + string option" where
  \<comment> \<open>the first conditional of \<^verbatim>\<open>main\<close>; \<open>Inl\<close> is the exception of \<^verbatim>\<open>readFileSync\<close>\<close>
  "obtain_input w =
     (case argv_file w of
        Contents t \<Rightarrow> Inr (Some t)
      | Unreadable \<Rightarrow> Inl ()
      | NoFile \<Rightarrow>
          if length (positional w) \<noteq> 0 then Inr (Some (join_space (positional w)))
          else Inr (stdin w))"

definition pipeline :: "string \<Rightarrow> string \<Rightarrow> report" where
  \<comment> \<open>from \<^verbatim>\<open>const sentences\<close> to \<^verbatim>\<open>const result\<close>\<close>
  "pipeline now input =
     (let sentences = splitSentences input;
          dec = extractFactsAndClaims sentences;
          words = tokenizeWords input;
          kws = scoreKeywords words;
          foc = identifyFocalPoints sentences kws;
          props = reArchitect foc
      in summarizeJSON now input dec kws foc props)"

definition fatal :: outcome where
  \<comment> \<open>the handler of \<^verbatim>\<open>main().catch\<close>\<close>
  "fatal = \<lparr>exit_code = 1, stderr = [''Fatal:''], stdout = None, written = None\<rparr>"

definition no_input :: outcome where
  "no_input =
     \<lparr>exit_code = 2,
      stderr = [''No input provided. Use --file or pipe text into the script.''],
      stdout = None, written = None\<rparr>"

definition too_large :: outcome where
  "too_large =
     \<lparr>exit_code = 3, stderr = [''Input too large (>200k chars). Aborting.''],
      stdout = None, written = None\<rparr>"

definition main :: "world \<Rightarrow> outcome" where
  \<comment> \<open>\<^verbatim>\<open>!input\<close> holds of \<^verbatim>\<open>null\<close> and of the empty string\<close>
  "main w =
     (case obtain_input w of
        Inl _ \<Rightarrow> fatal
      | Inr None \<Rightarrow> no_input
      | Inr (Some input) \<Rightarrow>
          if input = [] then no_input
          else if length input > 200000 then too_large
          else
            let result = pipeline (clock w) input
            in if disk_ok w
               then \<lparr>exit_code = 0, stderr = [''Wrote''], stdout = Some result,
                     written = Some result\<rparr>
               else fatal)"

section \<open>Notions used in the statements\<close>

datatype classification = Fact | Claim | Question

definition classify :: "string \<Rightarrow> classification" where
  \<comment> \<open>the branch of the loop of \<^verbatim>\<open>extractFactsAndClaims\<close> that a sentence takes\<close>
  "classify s =
     (if is_fact_signal s then Fact
      else if is_claim_signal s then Claim
      else if is_question_signal s then Question
      else Fact)"

fun first_pos :: "'a list \<Rightarrow> 'a \<Rightarrow> nat" where
  \<comment> \<open>the position at which an element first occurs in a list (its length, if nowhere)\<close>
  "first_pos [] a = 0"
| "first_pos (x # xs) a = (if x = a then 0 else Suc (first_pos xs a))"

definition kept :: "string \<Rightarrow> bool" where
  \<comment> \<open>the tokens that the callback of \<^verbatim>\<open>words.forEach\<close> counts\<close>
  "kept w = (\<not> (w \<in> set STOPWORDS \<or> length w \<le> 2))"

definition is_upper_AZ :: "char \<Rightarrow> bool" where
  \<comment> \<open>the class \<^verbatim>\<open>[A-Z]\<close>, which no code unit of a lowercased string is in\<close>
  "is_upper_AZ c = (let n = (of_char c :: int) in 65 \<le> n \<and> n \<le> 90)"

section \<open>The classifier partitions the sentences\<close>

lemma foldl_classify_push:
  "foldl classify_push d ss =
     \<lparr>facts = facts d @ map trim (filter (\<lambda>s. classify s = Fact) ss),
      claims = claims d @ map trim (filter (\<lambda>s. classify s = Claim) ss),
      questions = questions d @ map trim (filter (\<lambda>s. classify s = Question) ss)\<rparr>"
proof (induction ss arbitrary: d)
  case Nil
  show ?case by simp
next
  case (Cons s ss)
  show ?case
    unfolding foldl_Cons Cons.IH
    by (simp add: classify_push_def classify_def)
qed

lemma trim_trim: "trim (trim s) = trim s"
proof -
  define x where "x = dropWhile is_space s"
  define y where "y = rev (dropWhile is_space (rev x))"
  have y: "trim s = y"
    by (simp add: trim_def x_def y_def)
  have "rev (rev x) = rev (takeWhile is_space (rev x) @ dropWhile is_space (rev x))"
    by (simp only: takeWhile_dropWhile_id)
  then have x: "x = y @ rev (takeWhile is_space (rev x))"
    by (simp only: rev_rev_ident rev_append y_def)
  have "dropWhile is_space y = y"
  proof (cases "y = []")
    case True
    then show ?thesis by simp
  next
    case False
    with x have "hd y = hd x" and "x \<noteq> []"
      by (metis hd_append2, metis append_is_Nil_conv)
    moreover from \<open>x \<noteq> []\<close> have "\<not> is_space (hd x)"
      unfolding x_def by (rule hd_dropWhile)
    ultimately show ?thesis
      using False by (cases y) simp_all
  qed
  moreover have "dropWhile is_space (rev y) = rev y"
    by (simp add: y_def)
  ultimately show ?thesis
    by (simp add: y) (simp add: trim_def)
qed

lemma splitSentences_trimmed: "s \<in> set (splitSentences input) \<Longrightarrow> trim s = s"
  by (auto simp: splitSentences_def trim_trim)

lemma map_trim_sentences:
  "map trim (filter P (splitSentences input)) = filter P (splitSentences input)"
  by (rule map_idI) (auto simp: splitSentences_trimmed)

text \<open>
  Claim C6. Every sentence takes exactly one branch of the loop (\<^const>\<open>classify\<close> is a
  function into the three kinds), and each bucket holds, trimmed as the loop pushes them,
  the sentences of its kind in their original order: nothing is dropped, nothing is pushed
  twice, and the three buckets together have as many entries as there are sentences. The
  sentences that the splitter produces are trimmed already, so each bucket is then the
  subsequence of the sentences of its kind.
\<close>

theorem buckets_partition:
  "extractFactsAndClaims ss =
     \<lparr>facts = map trim (filter (\<lambda>s. classify s = Fact) ss),
      claims = map trim (filter (\<lambda>s. classify s = Claim) ss),
      questions = map trim (filter (\<lambda>s. classify s = Question) ss)\<rparr>
   \<and> length (facts (extractFactsAndClaims ss)) + length (claims (extractFactsAndClaims ss))
       + length (questions (extractFactsAndClaims ss)) = length ss
   \<and> extractFactsAndClaims (splitSentences input) =
     \<lparr>facts = filter (\<lambda>s. classify s = Fact) (splitSentences input),
      claims = filter (\<lambda>s. classify s = Claim) (splitSentences input),
      questions = filter (\<lambda>s. classify s = Question) (splitSentences input)\<rparr>"
proof -
  have eq: "extractFactsAndClaims xs =
     \<lparr>facts = map trim (filter (\<lambda>s. classify s = Fact) xs),
      claims = map trim (filter (\<lambda>s. classify s = Claim) xs),
      questions = map trim (filter (\<lambda>s. classify s = Question) xs)\<rparr>" for xs
    unfolding extractFactsAndClaims_def foldl_classify_push by simp
  have "length (filter (\<lambda>s. classify s = Fact) xs) + length (filter (\<lambda>s. classify s = Claim) xs)
        + length (filter (\<lambda>s. classify s = Question) xs) = length xs" for xs
  proof (induction xs)
    case Nil
    show ?case by simp
  next
    case (Cons x xs)
    then show ?case by (cases "classify x") simp_all
  qed
  then have len: "length (facts (extractFactsAndClaims ss))
       + length (claims (extractFactsAndClaims ss))
       + length (questions (extractFactsAndClaims ss)) = length ss"
    by (simp add: eq)
  have "extractFactsAndClaims (splitSentences input) =
     \<lparr>facts = filter (\<lambda>s. classify s = Fact) (splitSentences input),
      claims = filter (\<lambda>s. classify s = Claim) (splitSentences input),
      questions = filter (\<lambda>s. classify s = Question) (splitSentences input)\<rparr>"
    by (simp only: eq map_trim_sentences)
  with eq [of ss] len show ?thesis
    by (simp only: simp_thms)
qed

section \<open>Sorting with a comparison function\<close>

lemma set_insort_cmp: "set (insort_cmp cmp x xs) = insert x (set xs)"
  by (induction xs) auto

lemma set_js_sort: "set (js_sort cmp xs) = set xs"
  unfolding js_sort_def by (induction xs) (auto simp: set_insort_cmp)

lemma length_insort_cmp: "length (insort_cmp cmp x xs) = Suc (length xs)"
  by (induction xs) auto

lemma length_js_sort: "length (js_sort cmp xs) = length xs"
  unfolding js_sort_def by (induction xs) (auto simp: length_insort_cmp)

section \<open>The triggers of a focal point\<close>

lemma set_match_push:
  "set (match_push ks acc s) \<subseteq>
     set acc \<union> {\<lparr>sentence = trim s,
                     matches = filter (\<lambda>k. str_includes (toLowerCase s) k) ks,
                     length_m = length s\<rparr>}"
  by (auto simp: match_push_def Let_def)

lemma foldl_match_push:
  "m \<in> set (foldl (match_push ks) acc ss) \<Longrightarrow>
     m \<in> set acc \<or>
     (\<exists>s\<in>set ss. m = \<lparr>sentence = trim s,
                         matches = filter (\<lambda>k. str_includes (toLowerCase s) k) ks,
                         length_m = length s\<rparr>)"
proof (induction ss arbitrary: acc)
  case Nil
  then show ?case by simp
next
  case (Cons s ss)
  from Cons.prems have "m \<in> set (foldl (match_push ks) (match_push ks acc s) ss)"
    by simp
  from Cons.IH [OF this] set_match_push [of ks acc s]
  show ?case by auto
qed

lemma topK_take: "topK kws = map keyword (take 6 kws)"
  by (cases "6 \<le> length kws") (simp_all add: topK_def min_def)

text \<open>
  Claim C9. The triggers of a sentence-kind focal point are the first six keywords of the
  ranking, in the order of the ranking, filtered to those that the lowercased sentence
  contains: their order is the order of the ranking, not the order of occurrence in the
  sentence, and a keyword beyond the sixth is never a trigger. The summary is the sentence,
  trimmed.
\<close>

theorem triggers_in_rank_order:
  assumes "fp \<in> set (focal (identifyFocalPoints sentences kws))"
  shows "\<exists>s\<in>set sentences.
           summary fp = trim s \<and>
           triggers fp = filter (\<lambda>k. str_includes (toLowerCase s) k) (map keyword (take 6 kws))"
proof -
  define found where
    "found = js_sort by_matches_then_length (foldl (match_push (topK kws)) [] sentences)"
  have "focal (identifyFocalPoints sentences kws) =
          map (\<lambda>(i, m). \<lparr>f_id = ''F'' @ decimal (i + 1), summary = sentence m,
                          triggers = matches m\<rparr>) (enumerate 0 (take 5 found))"
    by (simp add: identifyFocalPoints_def Let_def found_def)
  with assms obtain i m where
    m: "(i, m) \<in> set (enumerate 0 (take 5 found))"
    and fp: "fp = \<lparr>f_id = ''F'' @ decimal (i + 1), summary = sentence m, triggers = matches m\<rparr>"
    by auto
  from m have "m \<in> set (take 5 found)"
    using nth_mem [of i "take 5 found"] by (auto simp: in_set_enumerate_eq)
  then have "m \<in> set found"
    by (rule in_set_takeD)
  then have "m \<in> set (foldl (match_push (topK kws)) [] sentences)"
    by (simp add: found_def set_js_sort)
  from foldl_match_push [OF this] fp show ?thesis
    unfolding topK_take by auto
qed

text \<open>
  In the sentence \<open>omega beta alpha\<close> the keyword \<open>beta\<close> comes before \<open>alpha\<close>, in the
  ranking \<open>alpha\<close> comes first; \<open>omega\<close> is the seventh keyword. The triggers are
  \<open>alpha\<close>, \<open>beta\<close>.
\<close>

theorem triggers_in_rank_order_witness:
  "\<lparr>f_id = ''F1'', summary = ''omega beta alpha'', triggers = [''alpha'', ''beta'']\<rparr>
     \<in> set (focal (identifyFocalPoints [''omega beta alpha '']
     [\<lparr>keyword = ''alpha'', count = 7\<rparr>, \<lparr>keyword = ''beta'', count = 6\<rparr>,
      \<lparr>keyword = ''gamma'', count = 5\<rparr>, \<lparr>keyword = ''delta'', count = 4\<rparr>,
      \<lparr>keyword = ''epsilon'', count = 3\<rparr>, \<lparr>keyword = ''zeta'', count = 2\<rparr>,
      \<lparr>keyword = ''omega'', count = 1\<rparr>]))
   \<and> (\<exists>s\<in>set [''omega beta alpha ''].
         ''omega beta alpha'' = trim s \<and>
         [''alpha'', ''beta''] = filter (\<lambda>k. str_includes (toLowerCase s) k)
            (map keyword (take 6
     [\<lparr>keyword = ''alpha'', count = 7\<rparr>, \<lparr>keyword = ''beta'', count = 6\<rparr>,
      \<lparr>keyword = ''gamma'', count = 5\<rparr>, \<lparr>keyword = ''delta'', count = 4\<rparr>,
      \<lparr>keyword = ''epsilon'', count = 3\<rparr>, \<lparr>keyword = ''zeta'', count = 2\<rparr>,
      \<lparr>keyword = ''omega'', count = 1\<rparr>])))"
proof -
  have h: "\<lparr>f_id = ''F1'', summary = ''omega beta alpha'', triggers = [''alpha'', ''beta'']\<rparr>
     \<in> set (focal (identifyFocalPoints [''omega beta alpha '']
     [\<lparr>keyword = ''alpha'', count = 7\<rparr>, \<lparr>keyword = ''beta'', count = 6\<rparr>,
      \<lparr>keyword = ''gamma'', count = 5\<rparr>, \<lparr>keyword = ''delta'', count = 4\<rparr>,
      \<lparr>keyword = ''epsilon'', count = 3\<rparr>, \<lparr>keyword = ''zeta'', count = 2\<rparr>,
      \<lparr>keyword = ''omega'', count = 1\<rparr>]))"
    by code_simp
  from triggers_in_rank_order [OF h] h show ?thesis by simp
qed

section \<open>The guards on the input\<close>

text \<open>
  Claim C8. The run ends with exit code 2 exactly when the text obtained is \<^verbatim>\<open>null\<close> or
  the empty string, and with exit code 3 exactly when a text was obtained and is longer than
  200000 code units. In both cases the outcome is the fixed one of the guard, which does not
  depend on the pipeline, prints no report and writes no file.
\<close>

theorem input_guards:
  "(exit_code (main w) = 2 \<longleftrightarrow>
      obtain_input w = Inr None \<or> obtain_input w = Inr (Some []))
   \<and> (exit_code (main w) = 3 \<longleftrightarrow>
      (\<exists>t. obtain_input w = Inr (Some t) \<and> length t > 200000))
   \<and> (exit_code (main w) = 2 \<longrightarrow> main w = no_input)
   \<and> (exit_code (main w) = 3 \<longrightarrow> main w = too_large)
   \<and> stdout no_input = None \<and> written no_input = None
   \<and> stdout too_large = None \<and> written too_large = None"
  by (auto simp: main_def fatal_def no_input_def too_large_def Let_def
           split: sum.splits option.splits)

text \<open>
  A text of 200001 code units on the standard input is too large; no file, no argument and
  a terminal as standard input give no text.
\<close>

theorem input_guards_witness:
  "exit_code (main \<lparr>argv_file = NoFile, positional = [],
                    stdin = Some (replicate 200001 (CHR ''a'')), clock = ''now'',
                    disk_ok = True\<rparr>) = 3
   \<and> main \<lparr>argv_file = NoFile, positional = [],
            stdin = Some (replicate 200001 (CHR ''a'')), clock = ''now'',
            disk_ok = True\<rparr> = too_large
   \<and> exit_code (main \<lparr>argv_file = NoFile, positional = [], stdin = None, clock = ''now'',
                    disk_ok = True\<rparr>) = 2
   \<and> main \<lparr>argv_file = NoFile, positional = [], stdin = None, clock = ''now'',
            disk_ok = True\<rparr> = no_input"
  using input_guards [of "\<lparr>argv_file = NoFile, positional = [],
                    stdin = Some (replicate 200001 (CHR ''a'')), clock = ''now'',
                    disk_ok = True\<rparr>"]
    input_guards [of "\<lparr>argv_file = NoFile, positional = [], stdin = None, clock = ''now'',
                    disk_ok = True\<rparr>"]
  by (simp add: obtain_input_def)

section \<open>The rules of the classifier\<close>

text \<open>
  Claim C1. The sentence \<open>Tell me what happened\<close> has no fact signal and no claim signal,
  does not end with a question mark and does not start with an interrogative word; the
  loop puts it among the questions, since \<open>what\<close> and a space occur inside it.
\<close>

theorem interior_what_is_question:
  "\<not> is_fact_signal ''Tell me what happened''
   \<and> \<not> is_claim_signal ''Tell me what happened''
   \<and> last (trim ''Tell me what happened'') \<noteq> CHR ''?''
   \<and> \<not> list_ex (\<lambda>w. literal_space w ''Tell me what happened'')
          [''who'', ''what'', ''why'', ''how'']
   \<and> extractFactsAndClaims [''Tell me what happened'']
       = \<lparr>facts = [], claims = [], questions = [''Tell me what happened'']\<rparr>"
  by code_simp

text \<open>
  Claim C2, as stated, fails: \<open>should\<close> is a substring of the lowercased sentence, which
  has no fact signal, and the sentence is not a claim, since no word boundary follows
  \<open>should\<close> in \<open>shouldn't\<close>.
\<close>

theorem embedded_should_is_not_claim:
  "str_includes (toLowerCase ''You shouldn't go'') ''should''
   \<and> \<not> is_fact_signal ''You shouldn't go''
   \<and> extractFactsAndClaims [''You shouldn't go''] =
     \<lparr>facts = [''You shouldn't go''], claims = [], questions = []\<rparr>"
  by code_simp

lemma regex_search_here: "m prev s \<Longrightarrow> regex_search m prev s"
  by (cases s) simp_all

lemma regex_search_append:
  "m (if pre = [] then prev else Some (last pre)) rest \<Longrightarrow> regex_search m prev (pre @ rest)"
proof (induction pre arbitrary: prev)
  case Nil
  then show ?case by (simp add: regex_search_here)
next
  case (Cons c cs)
  from Cons.prems have "m (if cs = [] then Some c else Some (last cs)) rest"
    by (cases "cs = []") simp_all
  from Cons.IH [OF this] show ?case by simp
qed

lemma literal_ci_self:
  "literal_ci t prev (t @ post) = Some (if t = [] then prev else Some (last t), post)"
  by (induction t arbitrary: prev) simp_all

lemma claim_word_ends:
  "t \<in> set CLAIM_WORDS \<Longrightarrow> t \<noteq> [] \<and> is_word_char (hd t) \<and> is_word_char (last t)"
  by (auto simp: CLAIM_WORDS_def is_word_char_def)

lemma bounded_claim_word:
  assumes t: "t \<in> set CLAIM_WORDS"
    and pre: "case prev of None \<Rightarrow> True | Some a \<Rightarrow> \<not> is_word_char a"
    and post: "post = [] \<or> \<not> is_word_char (hd post)"
  shows "bounded_words CLAIM_WORDS prev (t @ post)"
proof -
  from claim_word_ends [OF t] obtain a u where tu: "t = a # u" and a: "is_word_char a"
    and l: "is_word_char (last t)" and ne: "t \<noteq> []"
    by (cases t) auto
  from pre a have b1: "word_boundary prev (t @ post)"
    by (auto simp: word_boundary_def tu split: option.splits)
  from post l have b2: "word_boundary (Some (last t)) post"
    by (cases post) (auto simp: word_boundary_def)
  have "case literal_ci t prev (t @ post) of None \<Rightarrow> False
        | Some (p, rest) \<Rightarrow> word_boundary p rest"
    using b2 ne by (simp add: literal_ci_self)
  with t have "list_ex (\<lambda>a. case literal_ci a prev (t @ post) of None \<Rightarrow> False
        | Some (p, rest) \<Rightarrow> word_boundary p rest) CLAIM_WORDS"
    unfolding list_ex_iff by blast
  with b1 show ?thesis by (simp add: bounded_words_def)
qed

lemma of_char_bounds: "0 \<le> (of_char c :: int) \<and> (of_char c :: int) < 256"
proof -
  have "0 \<le> x mod 256 \<and> x mod 256 < 256" for x :: int
    by simp
  from this [of "of_char c"] show ?thesis
    by (simp only: of_char_mod_256)
qed

lemma of_char_canonicalize:
  "(of_char (canonicalize c) :: int) =
     (let n = of_char c in
      if (97 \<le> n \<and> n \<le> 122) \<or> (224 \<le> n \<and> n \<le> 254 \<and> n \<noteq> 247) then n - 32 else n)"
  using of_char_bounds [of c]
  by (auto simp: canonicalize_def Let_def)

lemma of_char_lower_char:
  "(of_char (lower_char c) :: int) =
     (let n = of_char c in
      if (65 \<le> n \<and> n \<le> 90) \<or> (192 \<le> n \<and> n \<le> 222 \<and> n \<noteq> 215) then n + 32 else n)"
  using of_char_bounds [of c]
  by (auto simp: lower_char_def Let_def)

lemma lower_char_not_upper: "\<not> is_upper_AZ (lower_char c)"
  by (auto simp: is_upper_AZ_def of_char_lower_char Let_def)

lemma canonicalize_eq:
  assumes "canonicalize p = canonicalize c"
    and "is_lower_az p \<or> p = CHR '' ''"
    and "\<not> is_upper_AZ c"
  shows "c = p"
proof -
  from assms(1) have "(of_char (canonicalize p) :: int) = of_char (canonicalize c)"
    by simp
  with assms(2,3) have "(of_char c :: int) = of_char p"
    by (auto simp: of_char_canonicalize is_lower_az_def is_upper_AZ_def Let_def split: if_splits)
  then show ?thesis by simp
qed

lemma regex_search_split:
  "regex_search m prev s \<Longrightarrow>
     \<exists>pre rest. s = pre @ rest \<and> m (if pre = [] then prev else Some (last pre)) rest"
proof (induction s arbitrary: prev)
  case Nil
  then have "m prev []" by simp
  then show ?case
    by (intro exI [of _ "[]"]) simp
next
  case (Cons c cs)
  show ?case
  proof (cases "m prev (c # cs)")
    case True
    then show ?thesis
      by (intro exI [of _ "[]"] exI [of _ "c # cs"]) simp
  next
    case False
    with Cons.prems have "regex_search m (Some c) cs" by simp
    from Cons.IH [OF this] obtain pre rest where
      cs: "cs = pre @ rest" and m: "m (if pre = [] then Some c else Some (last pre)) rest"
      by (elim exE conjE)
    from m have "m (Some (last (c # pre))) rest"
      by (cases "pre = []") simp_all
    with cs show ?thesis
      by (intro exI [of _ "c # pre"] exI [of _ rest]) simp
  qed
qed

lemma literal_ci_exact:
  "literal_ci t prev s = Some (p, rest) \<Longrightarrow>
   \<forall>c\<in>set s. \<not> is_upper_AZ c \<Longrightarrow>
   \<forall>a\<in>set t. is_lower_az a \<or> a = CHR '' '' \<Longrightarrow>
     s = t @ rest \<and> p = (if t = [] then prev else Some (last t))"
proof (induction t prev s rule: literal_ci.induct)
  case (1 prev s)
  then show ?case by simp
next
  case (2 a as prev)
  then show ?case by simp
next
  case (3 a as prev c cs)
  from "3.prems"(1) have eq: "canonicalize a = canonicalize c"
    and rec: "literal_ci as (Some c) cs = Some (p, rest)"
    by (simp_all split: if_splits)
  from "3.prems"(2,3) have "is_lower_az a \<or> a = CHR '' ''" "\<not> is_upper_AZ c"
    by simp_all
  with eq have ca: "c = a" by (rule canonicalize_eq)
  from "3.IH" [OF eq rec] "3.prems"(2,3)
  have "cs = as @ rest \<and> p = (if as = [] then Some c else Some (last as))"
    by simp
  with ca show ?case by simp
qed

lemma claim_word_chars: "t \<in> set CLAIM_WORDS \<Longrightarrow> \<forall>a\<in>set t. is_lower_az a \<or> a = CHR '' ''"
  by (auto simp: CLAIM_WORDS_def is_lower_az_def)

lemma toLowerCase_no_upper: "\<forall>c\<in>set (toLowerCase s). \<not> is_upper_AZ c"
  by (auto simp: toLowerCase_def lower_char_not_upper)

lemma claim_signal_occurrence:
  assumes "is_claim_signal s"
  shows "\<exists>t\<in>set CLAIM_WORDS. \<exists>pre post.
           toLowerCase s = pre @ t @ post
           \<and> (pre = [] \<or> \<not> is_word_char (last pre))
           \<and> (post = [] \<or> \<not> is_word_char (hd post))"
proof -
  from assms have "regex_search (bounded_words CLAIM_WORDS) None (toLowerCase s)"
    by (simp add: is_claim_signal_def regex_test_def)
  from regex_search_split [OF this] obtain pre rest where
    low: "toLowerCase s = pre @ rest"
    and bw: "bounded_words CLAIM_WORDS (if pre = [] then None else Some (last pre)) rest"
    by (elim exE conjE)
  define prev where "prev = (if pre = [] then None else Some (last pre))"
  from bw have b1: "word_boundary prev rest"
    and ex: "list_ex (\<lambda>a. case literal_ci a prev rest of None \<Rightarrow> False
                           | Some (p, r) \<Rightarrow> word_boundary p r) CLAIM_WORDS"
    by (simp_all only: bounded_words_def prev_def)
  from ex obtain t where t: "t \<in> set CLAIM_WORDS"
    and c: "case literal_ci t prev rest of None \<Rightarrow> False | Some (p, r) \<Rightarrow> word_boundary p r"
    unfolding list_ex_iff by (elim bexE)
  from c obtain p post where lit: "literal_ci t prev rest = Some (p, post)"
    and b2: "word_boundary p post"
    by (cases "literal_ci t prev rest") auto
  from toLowerCase_no_upper [of s] low have "\<forall>c\<in>set rest. \<not> is_upper_AZ c"
    by simp
  from literal_ci_exact [OF lit this claim_word_chars [OF t]] claim_word_ends [OF t]
  have rest: "rest = t @ post" and p: "p = Some (last t)"
    by simp_all
  from claim_word_ends [OF t] obtain a u where tu: "t = a # u" and a: "is_word_char a"
    and l: "is_word_char (last t)"
    by (cases t) auto
  from b1 a have "\<not> (case prev of None \<Rightarrow> False | Some x \<Rightarrow> is_word_char x)"
    by (simp add: word_boundary_def rest tu)
  then have pre: "pre = [] \<or> \<not> is_word_char (last pre)"
    by (cases "pre = []") (simp_all add: prev_def)
  from b2 l have post: "post = [] \<or> \<not> is_word_char (hd post)"
    by (cases post) (simp_all add: word_boundary_def p)
  from low rest have "toLowerCase s = pre @ t @ post" by simp
  with pre post have "\<exists>pre post. toLowerCase s = pre @ t @ post
           \<and> (pre = [] \<or> \<not> is_word_char (last pre))
           \<and> (post = [] \<or> \<not> is_word_char (hd post))"
    by (intro exI [of _ pre] exI [of _ post]) simp
  with t show ?thesis by (rule bexI [rotated])
qed

lemma occurrence_claim_signal:
  assumes "t \<in> set CLAIM_WORDS"
    and "toLowerCase s = pre @ t @ post"
    and "pre = [] \<or> \<not> is_word_char (last pre)"
    and "post = [] \<or> \<not> is_word_char (hd post)"
  shows "is_claim_signal s"
proof -
  from assms(3) have "case (if pre = [] then None else Some (last pre)) of
      None \<Rightarrow> True | Some a \<Rightarrow> \<not> is_word_char a"
    by auto
  from bounded_claim_word [OF assms(1) this assms(4)]
  have "regex_search (bounded_words CLAIM_WORDS) None (pre @ t @ post)"
    by (rule regex_search_append)
  then show ?thesis
    by (simp add: is_claim_signal_def regex_test_def assms(2))
qed

text \<open>
  Claim C2, amended. A sentence without a fact signal is a claim if and only if its
  lowercased form contains one of the seven trigger phrases as a whole word: the code unit
  before the occurrence, if there is one, is not an ASCII letter, a digit or an underscore,
  and neither is the code unit after it, if there is one. So a sentence in which every
  occurrence of a trigger has such a neighbour, as \<open>should\<close> in \<open>shouldn't\<close>, is not a
  claim.
\<close>

theorem claim_iff_whole_word_trigger:
  assumes "\<not> is_fact_signal s"
  shows "extractFactsAndClaims [s] = \<lparr>facts = [], claims = [trim s], questions = []\<rparr>
     \<longleftrightarrow> (\<exists>t\<in>set [''should'', ''must'', ''need to'', ''we should'', ''recommend'', ''suggest'', ''propose'']. \<exists>pre post.
           toLowerCase s = pre @ t @ post
           \<and> (pre = [] \<or> \<not> is_word_char (last pre))
           \<and> (post = [] \<or> \<not> is_word_char (hd post)))"
proof -
  have words: "set [''should'', ''must'', ''need to'', ''we should'', ''recommend'', ''suggest'', ''propose''] = set CLAIM_WORDS"
    by (simp add: CLAIM_WORDS_def)
  show ?thesis
    unfolding words
  proof
    assume "extractFactsAndClaims [s] = \<lparr>facts = [], claims = [trim s], questions = []\<rparr>"
    with assms have "is_claim_signal s"
      by (simp add: extractFactsAndClaims_def classify_push_def split: if_splits)
    then show "\<exists>t\<in>set CLAIM_WORDS. \<exists>pre post.
             toLowerCase s = pre @ t @ post
             \<and> (pre = [] \<or> \<not> is_word_char (last pre))
             \<and> (post = [] \<or> \<not> is_word_char (hd post))"
      by (rule claim_signal_occurrence)
  next
    assume "\<exists>t\<in>set CLAIM_WORDS. \<exists>pre post.
             toLowerCase s = pre @ t @ post
             \<and> (pre = [] \<or> \<not> is_word_char (last pre))
             \<and> (post = [] \<or> \<not> is_word_char (hd post))"
    then obtain t pre post where "t \<in> set CLAIM_WORDS" "toLowerCase s = pre @ t @ post"
      "pre = [] \<or> \<not> is_word_char (last pre)" "post = [] \<or> \<not> is_word_char (hd post)"
      by (elim bexE exE conjE)
    then have "is_claim_signal s"
      by (rule occurrence_claim_signal)
    with assms show "extractFactsAndClaims [s] = \<lparr>facts = [], claims = [trim s], questions = []\<rparr>"
      by (simp add: extractFactsAndClaims_def classify_push_def)
  qed
qed

text \<open>
  In \<open>We MUST-have it\<close> a space precedes the trigger and a hyphen follows it: a claim.
  \<open>You shouldn't go\<close> is no claim, so it has no whole-word occurrence of a trigger.
\<close>

theorem claim_iff_whole_word_trigger_witness:
  "extractFactsAndClaims [''We MUST-have it'']
       = \<lparr>facts = [], claims = [''We MUST-have it''], questions = []\<rparr>
   \<and> \<not> (\<exists>t\<in>set [''should'', ''must'', ''need to'', ''we should'', ''recommend'', ''suggest'', ''propose'']. \<exists>pre post.
           toLowerCase ''You shouldn't go'' = pre @ t @ post
           \<and> (pre = [] \<or> \<not> is_word_char (last pre))
           \<and> (post = [] \<or> \<not> is_word_char (hd post)))"
proof -
  have h1: "\<not> is_fact_signal ''We MUST-have it''" by code_simp
  have occ: "toLowerCase ''We MUST-have it'' = ''we '' @ ''must'' @ ''-have it''
        \<and> (''we '' = [] \<or> \<not> is_word_char (last ''we ''))
        \<and> (''-have it'' = [] \<or> \<not> is_word_char (hd ''-have it''))"
    by code_simp
  have ex: "\<exists>t\<in>set [''should'', ''must'', ''need to'', ''we should'', ''recommend'', ''suggest'', ''propose'']. \<exists>pre post.
           toLowerCase ''We MUST-have it'' = pre @ t @ post
           \<and> (pre = [] \<or> \<not> is_word_char (last pre))
           \<and> (post = [] \<or> \<not> is_word_char (hd post))"
  proof (rule bexI [where x = "''must''"])
    from occ show "\<exists>pre post. toLowerCase ''We MUST-have it'' = pre @ ''must'' @ post
        \<and> (pre = [] \<or> \<not> is_word_char (last pre))
        \<and> (post = [] \<or> \<not> is_word_char (hd post))"
      by (intro exI [of _ "''we ''"] exI [of _ "''-have it''"])
    show "''must'' \<in> set [''should'', ''must'', ''need to'', ''we should'', ''recommend'', ''suggest'', ''propose'']"
      by simp
  qed
  have tr: "trim ''We MUST-have it'' = ''We MUST-have it''" by code_simp
  from claim_iff_whole_word_trigger [OF h1] ex
  have "extractFactsAndClaims [''We MUST-have it'']
       = \<lparr>facts = [], claims = [trim ''We MUST-have it''], questions = []\<rparr>"
    by (rule iffD2)
  then have a: "extractFactsAndClaims [''We MUST-have it'']
       = \<lparr>facts = [], claims = [''We MUST-have it''], questions = []\<rparr>"
    by (simp only: tr)
  have h2: "\<not> is_fact_signal ''You shouldn't go''" by code_simp
  have ne: "extractFactsAndClaims [''You shouldn't go'']
              \<noteq> \<lparr>facts = [], claims = [trim ''You shouldn't go''], questions = []\<rparr>"
    by code_simp
  have b: "\<not> (\<exists>t\<in>set [''should'', ''must'', ''need to'', ''we should'', ''recommend'', ''suggest'', ''propose'']. \<exists>pre post.
           toLowerCase ''You shouldn't go'' = pre @ t @ post
           \<and> (pre = [] \<or> \<not> is_word_char (last pre))
           \<and> (post = [] \<or> \<not> is_word_char (hd post)))"
  proof
    assume "\<exists>t\<in>set [''should'', ''must'', ''need to'', ''we should'', ''recommend'', ''suggest'', ''propose'']. \<exists>pre post.
           toLowerCase ''You shouldn't go'' = pre @ t @ post
           \<and> (pre = [] \<or> \<not> is_word_char (last pre))
           \<and> (post = [] \<or> \<not> is_word_char (hd post))"
    with claim_iff_whole_word_trigger [OF h2]
    have "extractFactsAndClaims [''You shouldn't go'']
            = \<lparr>facts = [], claims = [trim ''You shouldn't go''], questions = []\<rparr>"
      by (rule iffD2)
    with ne show False by (rule notE)
  qed
  from a b show ?thesis by (rule conjI)
qed

section \<open>The proposals\<close>

text \<open>
  Claim C4, as stated, fails: the only sentence of the text below becomes the focal point
  F1, it contains \<open>gh token\<close> and \<open>secret\<close>, and also \<open>bug\<close>. The two actions of the
  first group come first, and the truncation to three entries drops the second action of
  the security group.
\<close>

theorem truncation_drops_instrument:
  "map summary (focal (focalPoints (pipeline ''now'' ''The gh token secret bug leaks.'')))
     = [''The gh token secret bug leaks.'']
   \<and> map proposals (rearchitecture (pipeline ''now'' ''The gh token secret bug leaks.''))
     = [[TRIAGE, AUTOMATE, SECURITY_AUDIT]]
   \<and> INSTRUMENT \<notin> set (proposals
        (rearchitecture (pipeline ''now'' ''The gh token secret bug leaks.'') ! 0))"
  by code_simp

text \<open>
  Claim C4, amended. For a focal point whose lowercased sentence contains \<open>gh token\<close> and
  \<open>secret\<close>, the proposal at the same position has at most three actions; when the
  sentence contains none of \<open>issue\<close>, \<open>bug\<close>, \<open>label\<close> they start with the two
  security actions, and otherwise they are the two actions of the first group and then the
  first security action only.
\<close>

theorem security_actions:
  assumes "i < length (focal fps)"
    and "s = toLowerCase (summary (focal fps ! i))"
    and "str_includes s ''gh token''"
    and "str_includes s ''secret''"
  shows "p_id (reArchitect fps ! i) = f_id (focal fps ! i)
     \<and> problem (reArchitect fps ! i) = summary (focal fps ! i)
     \<and> length (proposals (reArchitect fps ! i)) \<le> 3
     \<and> (if issue_group s
        then proposals (reArchitect fps ! i) = [TRIAGE, AUTOMATE, SECURITY_AUDIT]
        else take 2 (proposals (reArchitect fps ! i)) = [SECURITY_AUDIT, INSTRUMENT])"
  using assms by (simp add: reArchitect_def propose_def Let_def workflow_group_def)

text \<open>
  A focal point whose sentence has the two triggers and none of the first group.
\<close>

theorem security_actions_witness:
  "proposals (reArchitect \<lparr>focal = [\<lparr>f_id = ''F1'', summary = ''Rotate the GH token secret now'',
                                    triggers = [''token'']\<rparr>], micro = []\<rparr> ! 0)
     = [SECURITY_AUDIT, INSTRUMENT]
   \<and> str_includes (toLowerCase ''Rotate the GH token secret now'') ''gh token''
   \<and> str_includes (toLowerCase ''Rotate the GH token secret now'') ''secret''
   \<and> \<not> issue_group (toLowerCase ''Rotate the GH token secret now'')"
proof -
  define fps where "fps = \<lparr>focal = [\<lparr>f_id = ''F1'', summary = ''Rotate the GH token secret now'',
                                    triggers = [''token'']\<rparr>], micro = []\<rparr>"
  have h1: "0 < length (focal fps)"
    by (simp add: fps_def)
  have h2: "toLowerCase ''Rotate the GH token secret now''
              = toLowerCase (summary (focal fps ! 0))"
    by (simp add: fps_def)
  have h3: "str_includes (toLowerCase ''Rotate the GH token secret now'') ''gh token''"
    by code_simp
  have h4: "str_includes (toLowerCase ''Rotate the GH token secret now'') ''secret''"
    by code_simp
  have h5: "\<not> issue_group (toLowerCase ''Rotate the GH token secret now'')"
    by code_simp
  have h6: "length (proposals (reArchitect fps ! 0)) = 2"
    unfolding fps_def by code_simp
  from security_actions [OF h1 h2 h3 h4] h3 h4 h5 h6 show ?thesis
    by (simp add: fps_def)
qed

section \<open>The sentence splitter\<close>

lemma concat_split_behind: "concat (split_behind pre cur rest) = rev cur @ rest"
  by (induction rest arbitrary: pre cur) simp_all

lemma nonspace_dropWhile:
  "filter (\<lambda>c. \<not> is_space c) (dropWhile is_space s) = filter (\<lambda>c. \<not> is_space c) s"
  by (induction s) simp_all

lemma nonspace_trim: "filter (\<lambda>c. \<not> is_space c) (trim s) = filter (\<lambda>c. \<not> is_space c) s"
  by (simp add: trim_def rev_filter [symmetric] nonspace_dropWhile)

lemma is_space_CR_LF: "is_space (CHR 0x0D)" "is_space (CHR 0x0A)"
  by (simp_all add: is_space_def)

lemma nonspace_replace_crlf:
  "filter (\<lambda>c. \<not> is_space c) (replace_crlf s) = filter (\<lambda>c. \<not> is_space c) s"
  by (induction s rule: replace_crlf.induct) (auto simp: is_space_CR_LF)

lemma nonspace_concat_trim:
  "filter (\<lambda>c. \<not> is_space c) (concat (map trim xs)) = filter (\<lambda>c. \<not> is_space c) (concat xs)"
  by (induction xs) (simp_all add: nonspace_trim)

lemma concat_nonempty: "concat (filter (\<lambda>s. s \<noteq> []) xs) = concat xs"
  by (induction xs) simp_all

text \<open>
  Claim C5. The sentences of a text, concatenated and with all white space deleted, are the
  text with all white space deleted: splitting, trimming and dropping the empty pieces lose
  no other code unit and keep the order. This holds of every text, so of every non-empty
  one of at most 200000 code units.
\<close>

theorem split_keeps_text:
  "filter (\<lambda>c. \<not> is_space c) (concat (splitSentences input))
     = filter (\<lambda>c. \<not> is_space c) input"
proof -
  have "concat (splitSentences input)
          = concat (map trim (split_behind [] [] (replace_crlf input)))"
    by (simp add: splitSentences_def concat_nonempty)
  then have "filter (\<lambda>c. \<not> is_space c) (concat (splitSentences input))
          = filter (\<lambda>c. \<not> is_space c) (concat (split_behind [] [] (replace_crlf input)))"
    by (simp only: nonspace_concat_trim)
  also have "\<dots> = filter (\<lambda>c. \<not> is_space c) (replace_crlf input)"
    by (simp add: concat_split_behind)
  finally show ?thesis
    by (simp only: nonspace_replace_crlf)
qed

section \<open>A text of white space\<close>

lemma trim_spaces:
  assumes "\<forall>c\<in>set s. is_space c"
  shows "trim s = []"
proof -
  from assms have d: "dropWhile is_space s = []"
    by simp
  show ?thesis
    by (simp only: trim_def d rev.simps dropWhile.simps)
qed

lemma set_split_behind:
  "p \<in> set (split_behind pre cur rest) \<Longrightarrow> set p \<subseteq> set cur \<union> set rest"
proof (induction rest arbitrary: pre cur)
  case Nil
  then show ?case by simp
next
  case (Cons c cs)
  show ?case
  proof (cases "cur \<noteq> [] \<and> lookbehind pre")
    case True
    with Cons.prems have "p = rev cur \<or> p \<in> set (split_behind (c # pre) [c] cs)"
      by simp
    then show ?thesis
      using Cons.IH [of "c # pre" "[c]"] by auto
  next
    case False
    with Cons.prems have "p \<in> set (split_behind (c # pre) (c # cur) cs)"
      by auto
    from Cons.IH [OF this] show ?thesis by auto
  qed
qed

lemma set_replace_crlf: "set (replace_crlf s) \<subseteq> set s"
  by (induction s rule: replace_crlf.induct) auto

lemma splitSentences_spaces:
  assumes "\<forall>c\<in>set t. is_space c"
  shows "splitSentences t = []"
proof -
  have "trim p = []" if "p \<in> set (split_behind [] [] (replace_crlf t))" for p
  proof -
    from set_split_behind [OF that] set_replace_crlf [of t] assms
    have "\<forall>c\<in>set p. is_space c" by auto
    then show ?thesis by (rule trim_spaces)
  qed
  then show ?thesis
    by (simp add: splitSentences_def filter_empty_conv)
qed

lemma split_ws_spaces:
  assumes "\<forall>c\<in>set s. is_space c"
  shows "filter (\<lambda>w. w \<noteq> []) (split_ws [] s) = []"
proof (cases s)
  case Nil
  then show ?thesis by simp
next
  case (Cons c cs)
  with assms have c: "is_space c" and cs: "dropWhile is_space cs = []"
    by simp_all
  show ?thesis by (simp add: Cons c cs)
qed

lemma space_kept:
  assumes "is_space c"
  shows "lower_char c = c" "\<not> is_curly_quote c" "is_token_char c"
  using assms by (auto simp: lower_char_def is_curly_quote_def is_token_char_def is_space_def Let_def)

lemma tokenizeWords_spaces:
  assumes "\<forall>c\<in>set t. is_space c"
  shows "tokenizeWords t = []"
proof -
  from assms have "map (\<lambda>c. if is_token_char c then c else CHR '' '')
           (map (\<lambda>c. if is_curly_quote c then CHR 0x27 else c) (toLowerCase t)) = t"
    by (induction t) (simp_all add: toLowerCase_def space_kept)
  with split_ws_spaces [OF assms] show ?thesis
    by (simp add: tokenizeWords_def)
qed

lemma scoreKeywords_Nil: "scoreKeywords [] = []"
  by (simp add: scoreKeywords_def Object_entries_def js_sort_def)

lemma pipeline_spaces:
  assumes "\<forall>c\<in>set t. is_space c"
  shows "pipeline now t =
     \<lparr>meta = \<lparr>timestamp = now, sourceSize = length t\<rparr>,
      deconstruction = \<lparr>facts = [], claims = [], questions = []\<rparr>,
      keywords_r = [], focalPoints = \<lparr>focal = [], micro = []\<rparr>, rearchitecture = []\<rparr>"
  by (simp add: pipeline_def splitSentences_spaces [OF assms] tokenizeWords_spaces [OF assms]
      scoreKeywords_Nil extractFactsAndClaims_def identifyFocalPoints_def topK_def js_sort_def
      reArchitect_def summarizeJSON_def)

text \<open>
  Claim C10. A non-empty text of white space only, of at most 200000 code units, passes
  both guards: the run does not end with exit code 2 or 3, and the report of the pipeline
  has empty buckets, no keywords, no focal points of either kind, no proposals, and the
  length of the text as \<open>sourceSize\<close>. When the report can be written, the run prints
  and writes exactly this report and ends with exit code 0.
\<close>

theorem blank_input_runs:
  assumes "t \<noteq> []" and "\<forall>c\<in>set t. is_space c" and "length t \<le> 200000"
    and "obtain_input w = Inr (Some t)"
  shows "exit_code (main w) \<noteq> 2 \<and> exit_code (main w) \<noteq> 3
     \<and> pipeline (clock w) t =
         \<lparr>meta = \<lparr>timestamp = clock w, sourceSize = length t\<rparr>,
          deconstruction = \<lparr>facts = [], claims = [], questions = []\<rparr>,
          keywords_r = [], focalPoints = \<lparr>focal = [], micro = []\<rparr>, rearchitecture = []\<rparr>
     \<and> (disk_ok w \<longrightarrow>
          main w = \<lparr>exit_code = 0, stderr = [''Wrote''],
                    stdout = Some (pipeline (clock w) t),
                    written = Some (pipeline (clock w) t)\<rparr>)"
  using assms pipeline_spaces [OF assms(2), of "clock w"]
  by (simp add: main_def fatal_def Let_def)

text \<open>
  A space, a line feed and a tab on the standard input.
\<close>

theorem blank_input_runs_witness:
  "main \<lparr>argv_file = NoFile, positional = [],
         stdin = Some [CHR '' '', CHR 0x0A, CHR 0x09], clock = ''now'', disk_ok = True\<rparr>
     = \<lparr>exit_code = 0, stderr = [''Wrote''],
        stdout = Some \<lparr>meta = \<lparr>timestamp = ''now'', sourceSize = 3\<rparr>,
          deconstruction = \<lparr>facts = [], claims = [], questions = []\<rparr>,
          keywords_r = [], focalPoints = \<lparr>focal = [], micro = []\<rparr>, rearchitecture = []\<rparr>,
        written = Some \<lparr>meta = \<lparr>timestamp = ''now'', sourceSize = 3\<rparr>,
          deconstruction = \<lparr>facts = [], claims = [], questions = []\<rparr>,
          keywords_r = [], focalPoints = \<lparr>focal = [], micro = []\<rparr>, rearchitecture = []\<rparr>\<rparr>"
proof -
  define w where "w = \<lparr>argv_file = NoFile, positional = [],
         stdin = Some [CHR '' '', CHR 0x0A, CHR 0x09], clock = ''now'', disk_ok = True\<rparr>"
  have h1: "[CHR '' '', CHR 0x0A, CHR 0x09] \<noteq> []"
    by simp
  have h2: "\<forall>c\<in>set [CHR '' '', CHR 0x0A, CHR 0x09]. is_space c"
    by (simp add: is_space_def)
  have h3: "length [CHR '' '', CHR 0x0A, CHR 0x09] \<le> 200000"
    by simp
  have h4: "obtain_input w = Inr (Some [CHR '' '', CHR 0x0A, CHR 0x09])"
    by (simp add: w_def obtain_input_def)
  from blank_input_runs [OF h1 h2 h3 h4] show ?thesis
    by (simp add: w_def)
qed

section \<open>The keyword ranking\<close>

lemma insort_cmp_key:
  assumes "\<And>x y. (cmp x y \<le> 0) = (f x \<le> f y)"
  shows "insort_cmp cmp x xs = insort_key f x xs"
  by (induction xs) (simp_all add: assms)

lemma js_sort_key:
  assumes "\<And>x y. (cmp x y \<le> 0) = (f x \<le> f y)"
  shows "js_sort cmp xs = sort_key f xs"
  unfolding js_sort_def sort_key_def
  by (induction xs) (simp_all add: insort_cmp_key [OF assms])

lemma js_sort_by_count: "js_sort by_count_desc xs = sort_key (\<lambda>e. - int (snd e)) xs"
  by (rule js_sort_key) (simp add: by_count_desc_def)

lemma set_Object_entries: "set (Object_entries obj) = set obj"
  by (auto simp: Object_entries_def)

lemma keys_count_word:
  "fst ` set (count_word freq w) \<subseteq>
     fst ` set freq \<union> {k. k = w \<and> k \<notin> set STOPWORDS \<and> 2 < length k}"
  by (auto simp: count_word_def dom_update)

lemma keys_foldl_count_word:
  "fst ` set (foldl count_word freq ws) \<subseteq>
     fst ` set freq \<union> {k. k \<in> set ws \<and> k \<notin> set STOPWORDS \<and> 2 < length k}"
proof (induction ws arbitrary: freq)
  case Nil
  show ?case by simp
next
  case (Cons w ws)
  from Cons.IH [of "count_word freq w"] keys_count_word [of freq w]
  show ?case by auto
qed

lemma sorted_by_count:
  "sorted_wrt (\<lambda>a b. snd b \<le> snd a) (js_sort by_count_desc xs)"
proof -
  have "sorted (map (\<lambda>e. - int (snd e)) (sort_key (\<lambda>e. - int (snd e)) xs))"
    by (rule sorted_sort_key)
  then show ?thesis
    by (simp add: js_sort_by_count sorted_map)
qed

text \<open>
  Claim C7. The list of keywords has at most 12 entries, the counts do not increase from
  one entry to the next, and no keyword is a stopword or has at most two code units.
\<close>

theorem keyword_list_bounds:
  "length (scoreKeywords words) \<le> 12
   \<and> sorted_wrt (\<lambda>a b. count b \<le> count a) (scoreKeywords words)
   \<and> (\<forall>e\<in>set (scoreKeywords words). keyword e \<notin> set STOPWORDS \<and> 2 < length (keyword e))"
proof -
  define arr where "arr = js_sort by_count_desc (Object_entries (foldl count_word [] words))"
  have out: "scoreKeywords words = map (\<lambda>(k, v). \<lparr>keyword = k, count = v\<rparr>) (take 12 arr)"
    by (simp add: scoreKeywords_def arr_def)
  have len: "length (scoreKeywords words) \<le> 12"
    by (simp add: out)
  have "sorted_wrt (\<lambda>a b. snd b \<le> snd a) (take 12 arr)"
    unfolding arr_def by (rule sorted_wrt_take) (rule sorted_by_count)
  then have srt: "sorted_wrt (\<lambda>a b. count b \<le> count a) (scoreKeywords words)"
    by (simp add: out sorted_wrt_map case_prod_unfold)
  have "keyword e \<notin> set STOPWORDS \<and> 2 < length (keyword e)"
    if "e \<in> set (scoreKeywords words)" for e
  proof -
    from that obtain k v where kv: "(k, v) \<in> set (take 12 arr)" and e: "keyword e = k"
      by (auto simp: out)
    from kv have "(k, v) \<in> set arr"
      by (rule in_set_takeD)
    then have "(k, v) \<in> set (foldl count_word [] words)"
      by (simp add: arr_def set_js_sort set_Object_entries)
    then have "k \<in> fst ` set (foldl count_word [] words)"
      by force
    with keys_foldl_count_word [of "[]" words] e show ?thesis
      by auto
  qed
  with len srt show ?thesis by blast
qed

text \<open>
  Of the words \<open>the bug is a bug\<close> only \<open>bug\<close> is counted, twice.
\<close>

theorem keyword_list_bounds_witness:
  "\<lparr>keyword = ''bug'', count = 2\<rparr> \<in> set (scoreKeywords [''the'', ''bug'', ''is'', ''a'', ''bug''])
   \<and> ''bug'' \<notin> set STOPWORDS \<and> 2 < length ''bug''"
proof -
  have h: "\<lparr>keyword = ''bug'', count = 2\<rparr>
             \<in> set (scoreKeywords [''the'', ''bug'', ''is'', ''a'', ''bug''])"
    by code_simp
  from keyword_list_bounds [of "[''the'', ''bug'', ''is'', ''a'', ''bug'']"] h
  have "keyword \<lparr>keyword = ''bug'', count = 2\<rparr> \<notin> set STOPWORDS
        \<and> 2 < length (keyword \<lparr>keyword = ''bug'', count = 2\<rparr>)"
    by blast
  with h show ?thesis by simp
qed

section \<open>The order of keywords with equal counts\<close>

text \<open>
  Claim C3, as stated, fails: the tokens of \<open>zebra 404\<close> are \<open>zebra\<close> and then \<open>404\<close>,
  each counted once, and the ranking lists \<open>404\<close> first, since the properties of an
  object whose keys are array indices are enumerated before the others.
\<close>

theorem numeric_token_first:
  "tokenizeWords ''zebra 404'' = [''zebra'', ''404'']
   \<and> scoreKeywords (tokenizeWords ''zebra 404'')
       = [\<lparr>keyword = ''404'', count = 1\<rparr>, \<lparr>keyword = ''zebra'', count = 1\<rparr>]"
  by code_simp

lemma filter_eq_single:
  "distinct xs \<Longrightarrow> y \<in> set xs \<Longrightarrow> filter (\<lambda>z. z = y) xs = [y]"
  by (induction xs) (auto simp: filter_empty_conv)

lemma filter_pair_distinct:
  "distinct xs \<Longrightarrow> i < j \<Longrightarrow> j < length xs \<Longrightarrow>
     filter (\<lambda>z. z = xs ! i \<or> z = xs ! j) xs = [xs ! i, xs ! j]"
proof (induction xs arbitrary: i j)
  case Nil
  then show ?case by simp
next
  case (Cons a xs)
  from Cons.prems obtain j' where j: "j = Suc j'" and j': "j' < length xs"
    by (cases j) auto
  show ?case
  proof (cases i)
    case 0
    from Cons.prems(1) j' have "filter (\<lambda>z. z = a \<or> z = xs ! j') xs = filter (\<lambda>z. z = xs ! j') xs"
      by (intro filter_cong) auto
    also from Cons.prems(1) j' have "\<dots> = [xs ! j']"
      by (simp add: filter_eq_single)
    finally show ?thesis
      by (simp add: 0 j)
  next
    case (Suc i')
    with Cons.prems j have "i' < j'" by simp
    from Cons.IH [OF _ this j'] Cons.prems(1)
    have "filter (\<lambda>z. z = xs ! i' \<or> z = xs ! j') xs = [xs ! i', xs ! j']"
      by simp
    moreover from Cons.prems(1) j' \<open>i' < j'\<close> have "a \<noteq> xs ! i'" "a \<noteq> xs ! j'"
      by auto
    ultimately show ?thesis
      by (simp add: Suc j)
  qed
qed

lemma filter_pair_stable:
  assumes "f x = f y"
  shows "filter (\<lambda>z. z = x \<or> z = y) (sort_key f xs) = filter (\<lambda>z. z = x \<or> z = y) xs"
proof -
  have "filter (\<lambda>z. z = x \<or> z = y) zs
          = filter (\<lambda>z. z = x \<or> z = y) (filter (\<lambda>z. f z = f x) zs)" for zs
    using assms by (auto intro: filter_cong)
  then show ?thesis
    by (metis sort_key_stable)
qed

lemma first_pos_less: "a \<in> set xs \<Longrightarrow> first_pos xs a < length xs"
  by (induction xs) auto

lemma first_pos_append:
  "first_pos (xs @ ys) a = (if a \<in> set xs then first_pos xs a else length xs + first_pos ys a)"
  by (induction xs) auto

lemma keys_count_word_eq:
  "map fst (count_word freq w) =
     (if kept w \<and> w \<notin> set (map fst freq) then map fst freq @ [w] else map fst freq)"
  by (simp add: count_word_def kept_def update_keys)

lemma foldl_snoc: "foldl f a (xs @ [x]) = f (foldl f a xs) x"
  by simp

lemma keys_subset_words: "set (map fst (foldl count_word [] ws)) = {w \<in> set ws. kept w}"
proof (induction ws rule: rev_induct)
  case Nil
  show ?case by simp
next
  case (snoc w ws)
  show ?case
    unfolding foldl_snoc keys_count_word_eq using snoc.IH by auto
qed

lemma distinct_keys: "distinct (map fst (foldl count_word [] ws))"
proof (induction ws rule: rev_induct)
  case Nil
  show ?case by simp
next
  case (snoc w ws)
  show ?case
    unfolding foldl_snoc keys_count_word_eq using snoc.IH by auto
qed

lemma keys_first_seen:
  "filter (\<lambda>k. k = a \<or> k = b) (map fst (foldl count_word [] ws)) = [a, b] \<Longrightarrow> a \<noteq> b \<Longrightarrow>
     first_pos ws a < first_pos ws b"
proof (induction ws rule: rev_induct)
  case Nil
  then show ?case by simp
next
  case (snoc w ws)
  let ?K = "map fst (foldl count_word [] ws)"
  have K': "map fst (foldl count_word [] (ws @ [w]))
              = (if kept w \<and> w \<notin> set ?K then ?K @ [w] else ?K)"
    by (simp only: foldl_snoc keys_count_word_eq)
  show ?case
  proof (cases "kept w \<and> w \<notin> set ?K")
    case False
    then have "map fst (foldl count_word [] (ws @ [w])) = ?K"
      by (simp only: K' simp_thms if_False)
    with snoc.prems have f: "filter (\<lambda>k. k = a \<or> k = b) ?K = [a, b]"
      by (simp only:)
    then have "a \<in> set (filter (\<lambda>k. k = a \<or> k = b) ?K)" "b \<in> set (filter (\<lambda>k. k = a \<or> k = b) ?K)"
      by simp_all
    then have "a \<in> set ws" "b \<in> set ws"
      using keys_subset_words [of ws] by auto
    with snoc.IH [OF f snoc.prems(2)] show ?thesis
      by (simp add: first_pos_append)
  next
    case True
    then have new: "w \<notin> set ws"
      using keys_subset_words [of ws] by auto
    from True have "map fst (foldl count_word [] (ws @ [w])) = ?K @ [w]"
      by (simp only: K' simp_thms if_True)
    with snoc.prems have "filter (\<lambda>k. k = a \<or> k = b) (?K @ [w]) = [a, b]"
      by (simp only:)
    then have f: "filter (\<lambda>k. k = a \<or> k = b) ?K @ (if w = a \<or> w = b then [w] else []) = [a, b]"
      by (simp only: filter_append filter.simps)
    show ?thesis
    proof (cases "w = a \<or> w = b")
      case False
      with f have f': "filter (\<lambda>k. k = a \<or> k = b) ?K = [a, b]" by simp
      then have "a \<in> set (filter (\<lambda>k. k = a \<or> k = b) ?K)" "b \<in> set (filter (\<lambda>k. k = a \<or> k = b) ?K)"
        by simp_all
      then have "a \<in> set ws" "b \<in> set ws"
        using keys_subset_words [of ws] by auto
      with snoc.IH [OF f' snoc.prems(2)] show ?thesis
        by (simp add: first_pos_append)
    next
      case wab: True
      with f have "filter (\<lambda>k. k = a \<or> k = b) ?K @ [w] = [a] @ [b]" by simp
      then have fa: "filter (\<lambda>k. k = a \<or> k = b) ?K = [a]" and wb: "w = b"
        by simp_all
      from fa have "a \<in> set (filter (\<lambda>k. k = a \<or> k = b) ?K)" by simp
      then have a: "a \<in> set ws"
        using keys_subset_words [of ws] by auto
      from first_pos_less [OF a] a new wb show ?thesis
        by (simp add: first_pos_append)
    qed
  qed
qed

lemma distinct_Object_entries: "distinct obj \<Longrightarrow> distinct (Object_entries obj)"
  by (auto simp: Object_entries_def)

lemma filter_keys_pair:
  assumes inj: "inj_on fst (set F)" and x: "x \<in> set F" and y: "y \<in> set F"
  shows "filter (\<lambda>k. k = fst x \<or> k = fst y) (map fst F)
           = map fst (filter (\<lambda>z. z = x \<or> z = y) F)"
proof -
  have "filter (\<lambda>z. fst z = fst x \<or> fst z = fst y) F = filter (\<lambda>z. z = x \<or> z = y) F"
    using inj x y by (intro filter_cong) (auto dest: inj_onD)
  then show ?thesis
    by (simp add: filter_map o_def)
qed

lemma entries_order:
  assumes dist: "distinct F"
    and pair: "filter (\<lambda>z. z = x \<or> z = y) (Object_entries F) = [x, y]"
    and xy: "x \<noteq> y"
  shows "if is_array_index (fst x)
         then is_array_index (fst y) \<longrightarrow> decimal_value (fst x) \<le> decimal_value (fst y)
         else \<not> is_array_index (fst y) \<and> filter (\<lambda>z. z = x \<or> z = y) F = [x, y]"
proof -
  let ?Q = "\<lambda>z. z = x \<or> z = y"
  let ?P = "\<lambda>e. is_array_index (fst e)"
  let ?A = "sort_key (\<lambda>e. decimal_value (fst e)) (filter ?P F)"
  let ?B = "filter (\<lambda>e. \<not> ?P e) F"
  from pair have split: "filter ?Q ?A @ filter ?Q ?B = [x, y]"
    by (simp add: Object_entries_def)
  from pair have "x \<in> set (filter ?Q (Object_entries F))" "y \<in> set (filter ?Q (Object_entries F))"
    by simp_all
  then have xF: "x \<in> set F" and yF: "y \<in> set F"
    by (simp_all add: set_Object_entries)
  from dist have dA: "distinct ?A" and dB: "distinct ?B"
    by simp_all
  show ?thesis
  proof (cases "?P x")
    case Px: True
    have "decimal_value (fst x) \<le> decimal_value (fst y)" if Py: "?P y"
    proof -
      from Px Py have "filter ?Q ?B = []"
        by (auto simp: filter_empty_conv)
      with split have "filter ?Q ?A = [x, y]" by simp
      moreover have "sorted (map (\<lambda>e. decimal_value (fst e)) (filter ?Q ?A))"
        by (rule sorted_filter) (rule sorted_sort_key)
      ultimately show ?thesis by simp
    qed
    with Px show ?thesis by simp
  next
    case nPx: False
    have nPy: "\<not> ?P y"
    proof
      assume Py: "?P y"
      from nPx have "filter ?Q ?A = filter (\<lambda>z. z = y) ?A"
        by (intro filter_cong) auto
      also from Py yF dA have "\<dots> = [y]"
        by (intro filter_eq_single) simp_all
      finally have "hd (filter ?Q ?A @ filter ?Q ?B) = y" by simp
      with split xy show False by simp
    qed
    from nPx nPy have "filter ?Q ?A = []"
      by (auto simp: filter_empty_conv)
    with split have "filter ?Q ?B = [x, y]" by simp
    moreover from nPx nPy have "filter ?Q ?B = filter ?Q F"
      by (simp add: filter_filter) (intro filter_cong, auto)
    ultimately show ?thesis using nPx nPy by simp
  qed
qed

text \<open>
  Claim C3, amended. Of two keywords with equal counts, the one listed first is either an
  array index (the canonical decimal form of an integer below \<open>2^32 - 1\<close>, such as \<open>404\<close>),
  and then the other is not one or is numerically at least as large; or neither is an array
  index, and then the one listed first occurs first in the tokenized text. So the tokens that
  are array indices come first among equals, in ascending numeric order, and all other
  tokens follow in first-seen order.
\<close>

theorem tie_order:
  assumes "i < j" and "j < length (scoreKeywords words)"
    and "count (scoreKeywords words ! i) = count (scoreKeywords words ! j)"
  shows "if is_array_index (keyword (scoreKeywords words ! i))
         then is_array_index (keyword (scoreKeywords words ! j)) \<longrightarrow>
              decimal_value (keyword (scoreKeywords words ! i))
                \<le> decimal_value (keyword (scoreKeywords words ! j))
         else \<not> is_array_index (keyword (scoreKeywords words ! j)) \<and>
              first_pos words (keyword (scoreKeywords words ! i))
                < first_pos words (keyword (scoreKeywords words ! j))"
proof -
  define F where "F = foldl count_word [] words"
  define S where "S = js_sort by_count_desc (Object_entries F)"
  define x where "x = S ! i"
  define y where "y = S ! j"
  have out: "scoreKeywords words = map (\<lambda>(k, v). \<lparr>keyword = k, count = v\<rparr>) (take 12 S)"
    by (simp add: scoreKeywords_def S_def F_def)
  from assms(1,2) have j: "j < length S" "j < 12" and i: "i < length S" "i < 12"
    by (simp_all add: out)
  from i j have oi: "scoreKeywords words ! i = \<lparr>keyword = fst x, count = snd x\<rparr>"
    and oj: "scoreKeywords words ! j = \<lparr>keyword = fst y, count = snd y\<rparr>"
    by (simp_all add: out x_def y_def case_prod_unfold)
  have S: "S = sort_key (\<lambda>e. - int (snd e)) (Object_entries F)"
    by (simp add: S_def js_sort_by_count)
  have dK: "distinct (map fst F)"
    unfolding F_def by (rule distinct_keys)
  then have dF: "distinct F" and inj: "inj_on fst (set F)"
    by (simp_all add: distinct_map)
  from dF have dS: "distinct S"
    by (simp add: S distinct_Object_entries)
  from dS assms(1) j(1) have xy: "x \<noteq> y"
    by (simp add: x_def y_def nth_eq_iff_index_eq)
  from dS assms(1) j(1) have "filter (\<lambda>z. z = x \<or> z = y) S = [x, y]"
    unfolding x_def y_def by (rule filter_pair_distinct)
  moreover from assms(3) have "- int (snd x) = - int (snd y)"
    by (simp add: oi oj)
  ultimately have pair: "filter (\<lambda>z. z = x \<or> z = y) (Object_entries F) = [x, y]"
    by (simp add: S filter_pair_stable)
  from i j have "x \<in> set S" "y \<in> set S"
    by (simp_all add: x_def y_def)
  then have xF: "x \<in> set F" and yF: "y \<in> set F"
    by (simp_all add: S set_Object_entries)
  from inj xF yF xy have kxy: "fst x \<noteq> fst y"
    by (auto dest: inj_onD)
  note ord = entries_order [OF dF pair xy]
  show ?thesis
  proof (cases "is_array_index (fst x)")
    case True
    with ord show ?thesis by (simp add: oi oj)
  next
    case False
    with ord have ny: "\<not> is_array_index (fst y)"
      and f: "filter (\<lambda>z. z = x \<or> z = y) F = [x, y]"
      by simp_all
    from f have "filter (\<lambda>k. k = fst x \<or> k = fst y) (map fst F) = [fst x, fst y]"
      by (simp add: filter_keys_pair [OF inj xF yF])
    then have "first_pos words (fst x) < first_pos words (fst y)"
      unfolding F_def using kxy by (rule keys_first_seen)
    with False ny show ?thesis by (simp add: oi oj)
  qed
qed

text \<open>
  The tokens \<open>zebra\<close> and \<open>apple\<close>, each counted twice, keep the order of their first
  occurrences.
\<close>

theorem tie_order_witness:
  "(0::nat) < 1 \<and> 1 < length (scoreKeywords [''zebra'', ''apple'', ''zebra'', ''apple''])
   \<and> first_pos [''zebra'', ''apple'', ''zebra'', ''apple'']
         (keyword (scoreKeywords [''zebra'', ''apple'', ''zebra'', ''apple''] ! 0))
       < first_pos [''zebra'', ''apple'', ''zebra'', ''apple'']
         (keyword (scoreKeywords [''zebra'', ''apple'', ''zebra'', ''apple''] ! 1))"
proof -
  have h1: "(0::nat) < 1" by simp
  have h2: "1 < length (scoreKeywords [''zebra'', ''apple'', ''zebra'', ''apple''])"
    by code_simp
  have h3: "count (scoreKeywords [''zebra'', ''apple'', ''zebra'', ''apple''] ! 0)
          = count (scoreKeywords [''zebra'', ''apple'', ''zebra'', ''apple''] ! 1)"
    by code_simp
  have h4: "\<not> is_array_index (keyword (scoreKeywords [''zebra'', ''apple'', ''zebra'', ''apple''] ! 0))"
    by code_simp
  from tie_order [OF h1 h2 h3] h1 h2 h4 show ?thesis by simp
qed

end
